theory Spec2Isabelle
  imports Main "HOL-Library.Multiset" "HOL-Library.Word"
begin

section \<open>The scraper engine: data model\<close>

text \<open>
  The engine is \<^verbatim>\<open>scraperEngine.ts\<close>: \<^verbatim>\<open>scrapePage\<close> (the field extractor) and
  \<^verbatim>\<open>runScraper\<close> (the pagination walker). The configuration type is inferred from
  \<^verbatim>\<open>ScraperConfigSchema\<close> in \<^verbatim>\<open>lib/models/scraper.ts\<close>; only the fields the engine
  reads are kept. \<^verbatim>\<open>maxDepth\<close> is \<^verbatim>\<open>z.number().int().positive().optional()\<close>: the
  engine does not validate, so the model takes any integer or \<^verbatim>\<open>undefined\<close>.
\<close>

subsection \<open>Strings\<close>

text \<open>
  A JavaScript string is a sequence of UTF-16 code units. \<^verbatim>\<open>lit\<close> writes a string of
  code units below U+0100 as a literal.
\<close>

type_synonym code_unit = "16 word"

type_synonym jsstring = "code_unit list"

definition lit :: "string \<Rightarrow> jsstring" where
  "lit s = map of_char s"

text \<open>
  \<^verbatim>\<open>String.prototype.trim\<close> removes the code points of \<^verbatim>\<open>WhiteSpace\<close> and
  \<^verbatim>\<open>LineTerminator\<close> from both ends (ECMAScript, TrimString): TAB, LF, VT, FF, CR, SPACE,
  NO-BREAK SPACE, the other space separators U+1680, U+2000 to U+200A, U+202F, U+205F and
  U+3000, the separators U+2028 and U+2029, and U+FEFF. Each is one code unit.
\<close>

definition is_whitespace :: "code_unit \<Rightarrow> bool" where
  "is_whitespace u =
     (u \<in> {0x0009, 0x000A, 0x000B, 0x000C, 0x000D, 0x0020, 0x00A0, 0x1680,
            0x2000, 0x2001, 0x2002, 0x2003, 0x2004, 0x2005, 0x2006, 0x2007, 0x2008,
            0x2009, 0x200A, 0x2028, 0x2029, 0x202F, 0x205F, 0x3000, 0xFEFF})"

definition trim :: "jsstring \<Rightarrow> jsstring" where
  "trim s = rev (dropWhile is_whitespace (rev (dropWhile is_whitespace s)))"

subsection \<open>The configuration\<close>

record Selector =
  fieldName :: jsstring
  cssSelector :: jsstring

record ScraperConfig =
  url :: jsstring
  selectors :: "Selector list"
  paginationEnabled :: bool
  paginationNextSelector :: "jsstring option"
  maxDepth :: "int option"

subsection \<open>The scraped item: a JavaScript object used as a dictionary\<close>

text \<open>
  \<^verbatim>\<open>const scrapedData: ScrapedDataItem = {}\<close> is an ordinary object whose prototype is
  \<^verbatim>\<open>Object.prototype\<close>. \<^verbatim>\<open>props\<close> are its own properties (\<^verbatim>\<open>null\<close> is \<^term>\<open>None\<close>),
  \<^verbatim>\<open>proto_linked\<close> says that the prototype is still \<^verbatim>\<open>Object.prototype\<close>.

  \<^verbatim>\<open>scrapedData[key] = v\<close> creates or overwrites the own property \<^verbatim>\<open>key\<close>, for every key
  but one: \<^verbatim>\<open>Object.prototype\<close> has the accessor \<^verbatim>\<open>__proto__\<close>, and an assignment to an
  object that inherits it and has no own property of that name runs its setter. The
  setter ignores a string and, given \<^verbatim>\<open>null\<close>, removes the prototype; no own property is
  created in either case. Every other property of \<^verbatim>\<open>Object.prototype\<close> is a writable
  data property, which an assignment shadows by an own property.
\<close>

record ScrapedDataItem =
  proto_linked :: bool
  props :: "jsstring \<rightharpoonup> jsstring option"

definition empty_item :: ScrapedDataItem where
  "empty_item = \<lparr>proto_linked = True, props = Map.empty\<rparr>"

definition assign :: "ScrapedDataItem \<Rightarrow> jsstring \<Rightarrow> jsstring option \<Rightarrow> ScrapedDataItem" where
  "assign obj key v =
     (if key = lit ''__proto__'' \<and> proto_linked obj \<and> props obj key = None
      then (case v of None \<Rightarrow> obj\<lparr>proto_linked := False\<rparr> | Some _ \<Rightarrow> obj)
      else obj\<lparr>props := (props obj)(key \<mapsto> v)\<rparr>)"

subsection \<open>The page session (Puppeteer), as the engine sees it\<close>

text \<open>
  A promise of the browser either rejects (the \<^verbatim>\<open>await\<close> throws) or resolves to a value.
  A \<^verbatim>\<open>dom\<close> is what one rendered page answers:
  \<^item> \<^verbatim>\<open>page.waitForSelector(sel, {timeout: 10000})\<close>: rejects on timeout;
  \<^item> \<^verbatim>\<open>page.$eval(sel, el => el.textContent)\<close>: the text content of the first match
    (\<^verbatim>\<open>string | null\<close>), rejects when nothing matches;
  \<^item> \<^verbatim>\<open>page.$(sel)\<close>: an element handle (\<^term>\<open>True\<close>) or \<^verbatim>\<open>null\<close>;
  \<^item> \<^verbatim>\<open>Promise.all([page.waitForNavigation(..), page.click(sel)])\<close>.
  The four answers are independent of each other: nothing is assumed about the page.
\<close>

datatype 'a promise = Rejects | Resolves 'a

record dom =
  waitForSelector :: "jsstring \<Rightarrow> unit promise"
  evalTextContent :: "jsstring \<Rightarrow> jsstring option promise"
  query :: "jsstring \<Rightarrow> bool promise"
  clickAndWaitForNavigation :: "jsstring \<Rightarrow> unit promise"

text \<open>
  The browser: \<^verbatim>\<open>puppeteer.launch\<close>, \<^verbatim>\<open>browser.newPage\<close> followed by the configuration
  of the page (user agent, timeouts), and \<^verbatim>\<open>page.goto\<close> reject with a message
  (\<^term>\<open>Some msg\<close>) or resolve (\<^term>\<open>None\<close>). \<^verbatim>\<open>site n\<close> is the page shown while
  \<^verbatim>\<open>currentPageNum\<close> is \<^verbatim>\<open>n\<close>: the first page after \<^verbatim>\<open>goto\<close>, page \<^verbatim>\<open>n + 1\<close> after a
  successful click on page \<^verbatim>\<open>n\<close>. \<^verbatim>\<open>browser.close()\<close> releases the session and does not
  fail.
\<close>

record browser =
  launch :: "jsstring option"
  newPage :: "jsstring option"
  goto :: "jsstring \<Rightarrow> jsstring option"
  site :: "int \<Rightarrow> dom"

text \<open>What the engine does to the session and what it logs, in order.\<close>

datatype event =
    Launch
  | NewPage
  | Goto jsstring
  | Scraping int int
  | TryNext int
  | ClickNext int
  | NavigatedTo int
  | Close

section \<open>\<^verbatim>\<open>scrapePage\<close>\<close>

text \<open>
  One iteration of \<^verbatim>\<open>for (const selectorConfig of selectors)\<close>, on the pair
  \<^verbatim>\<open>(scrapedData, hasData)\<close>. The \<^verbatim>\<open>continue\<close> of the empty selector and the two awaits
  that can throw into the \<^verbatim>\<open>catch\<close> are the first three branches.
\<close>

fun scrapeField :: "dom \<Rightarrow> Selector \<Rightarrow> ScrapedDataItem \<times> bool \<Rightarrow> ScrapedDataItem \<times> bool" where
  "scrapeField page selectorConfig (scrapedData, hasData) =
     (if trim (cssSelector selectorConfig) = []
      then (assign scrapedData (fieldName selectorConfig) None, hasData)
      else (case waitForSelector page (cssSelector selectorConfig) of
              Rejects \<Rightarrow> (assign scrapedData (fieldName selectorConfig) None, hasData)
            | Resolves _ \<Rightarrow>
               (case evalTextContent page (cssSelector selectorConfig) of
                  Rejects \<Rightarrow> (assign scrapedData (fieldName selectorConfig) None, hasData)
                | Resolves elementText \<Rightarrow>
                    (let trimmedText =
                           (case elementText of
                              None \<Rightarrow> None
                            | Some t \<Rightarrow> if trim t = [] then None else Some (trim t))
                     in (assign scrapedData (fieldName selectorConfig) trimmedText,
                         hasData \<or> trimmedText \<noteq> None)))))"

fun scrapeFields :: "dom \<Rightarrow> Selector list \<Rightarrow> ScrapedDataItem \<times> bool \<Rightarrow> ScrapedDataItem \<times> bool" where
  "scrapeFields page [] st = st"
| "scrapeFields page (selectorConfig # rest) st =
     scrapeFields page rest (scrapeField page selectorConfig st)"

definition scrapePage :: "dom \<Rightarrow> Selector list \<Rightarrow> ScrapedDataItem list" where
  "scrapePage page sels =
     (case scrapeFields page sels (empty_item, False) of
        (scrapedData, hasData) \<Rightarrow> if hasData then [scrapedData] else [])"

section \<open>\<^verbatim>\<open>runScraper\<close>\<close>

text \<open>
  \<^verbatim>\<open>validConfig.paginationEnabled && validConfig.maxDepth ? validConfig.maxDepth : 1\<close>:
  \<^verbatim>\<open>undefined\<close> and \<^verbatim>\<open>0\<close> are falsy, every other number is truthy.
\<close>

definition effectiveMaxDepth :: "ScraperConfig \<Rightarrow> int" where
  "effectiveMaxDepth config =
     (case maxDepth config of
        Some d \<Rightarrow> if paginationEnabled config \<and> d \<noteq> 0 then d else 1
      | None \<Rightarrow> 1)"

text \<open>
  The \<^verbatim>\<open>while (currentPageNum <= maxDepth)\<close> loop, on \<^verbatim>\<open>currentPageNum\<close>,
  \<^verbatim>\<open>allScrapedData\<close> and the events so far. The string \<^verbatim>\<open>paginationNextSelector\<close> is
  truthy when it is present and not empty. Each \<^verbatim>\<open>break\<close> returns the state.
\<close>

function scrapeLoop ::
  "browser \<Rightarrow> ScraperConfig \<Rightarrow> int \<Rightarrow> int \<Rightarrow> ScrapedDataItem list \<Rightarrow> event list
     \<Rightarrow> ScrapedDataItem list \<times> event list" where
  "scrapeLoop b config maxD currentPageNum allScrapedData evs =
     (if currentPageNum \<le> maxD then
        (let pageData = scrapePage (site b currentPageNum) (selectors config);
             allScrapedData' =
               (if length pageData > 0 then allScrapedData @ pageData else allScrapedData);
             evs' = evs @ [Scraping currentPageNum maxD]
         in (case paginationNextSelector config of
               None \<Rightarrow> (allScrapedData', evs')
             | Some nextSel \<Rightarrow>
                 if paginationEnabled config \<and> nextSel \<noteq> [] \<and> currentPageNum < maxD then
                   (case waitForSelector (site b currentPageNum) nextSel of
                      Rejects \<Rightarrow> (allScrapedData', evs' @ [TryNext currentPageNum])
                    | Resolves _ \<Rightarrow>
                       (case query (site b currentPageNum) nextSel of
                          Rejects \<Rightarrow> (allScrapedData', evs' @ [TryNext currentPageNum])
                        | Resolves False \<Rightarrow> (allScrapedData', evs' @ [TryNext currentPageNum])
                        | Resolves True \<Rightarrow>
                           (case clickAndWaitForNavigation (site b currentPageNum) nextSel of
                              Rejects \<Rightarrow>
                                (allScrapedData',
                                 evs' @ [TryNext currentPageNum, ClickNext currentPageNum])
                            | Resolves _ \<Rightarrow>
                                scrapeLoop b config maxD (currentPageNum + 1) allScrapedData'
                                  (evs' @ [TryNext currentPageNum, ClickNext currentPageNum,
                                           NavigatedTo (currentPageNum + 1)]))))
                 else (allScrapedData', evs')))
      else (allScrapedData, evs))"
  by pat_completeness auto
termination
  by (relation "measure (\<lambda>(b, config, maxD, currentPageNum, allScrapedData, evs).
                           nat (maxD + 1 - currentPageNum))") auto

text \<open>
  The error of the outer \<^verbatim>\<open>catch\<close>:
  \<^verbatim>\<open>new Error(`Scraping failed for ${config.url}: ${error.message || error}`)\<close>; an error
  with an empty message prints as its name.
\<close>

datatype scrape_error = ScrapingFailed jsstring

definition failure :: "ScraperConfig \<Rightarrow> jsstring \<Rightarrow> scrape_error" where
  "failure config msg =
     ScrapingFailed ((lit ''Scraping failed for '') @ url config @ lit '': '' @
                     (if msg = [] then (lit ''Error'') else msg))"

text \<open>
  A run returns the rejection or the items, and the events. The \<^verbatim>\<open>finally\<close> block closes
  the browser when \<^verbatim>\<open>browser\<close> is set, that is when \<^verbatim>\<open>launch\<close> has resolved.
\<close>

record run =
  outcome :: "scrape_error + ScrapedDataItem list"
  events :: "event list"

definition runScraper :: "browser \<Rightarrow> ScraperConfig \<Rightarrow> run" where
  "runScraper b config =
     (case launch b of
        Some msg \<Rightarrow> \<lparr>outcome = Inl (failure config msg), events = [Launch]\<rparr>
      | None \<Rightarrow>
         (case newPage b of
            Some msg \<Rightarrow> \<lparr>outcome = Inl (failure config msg), events = [Launch, NewPage, Close]\<rparr>
          | None \<Rightarrow>
             (case goto b (url config) of
                Some msg \<Rightarrow>
                  \<lparr>outcome = Inl (failure config msg),
                   events = [Launch, NewPage, Goto (url config), Close]\<rparr>
              | None \<Rightarrow>
                 (case scrapeLoop b config (effectiveMaxDepth config) 1 []
                         [Launch, NewPage, Goto (url config)] of
                    (allScrapedData, evs) \<Rightarrow>
                      \<lparr>outcome = Inr allScrapedData, events = evs @ [Close]\<rparr>))))"

text \<open>Page visits are the iterations of the loop; pagination attempts are the waits for the
  next-page control.\<close>

fun is_visit :: "event \<Rightarrow> bool" where
  "is_visit (Scraping n m) = True"
| "is_visit e = False"

fun is_attempt :: "event \<Rightarrow> bool" where
  "is_attempt (TryNext n) = True"
| "is_attempt e = False"

definition visits :: "run \<Rightarrow> nat" where
  "visits r = length (filter is_visit (events r))"

definition attempts :: "run \<Rightarrow> nat" where
  "attempts r = length (filter is_attempt (events r))"

section \<open>Notions the properties are stated with\<close>

text \<open>The session was acquired and the first navigation succeeded: the run reaches the loop.\<close>

definition session_ok :: "browser \<Rightarrow> ScraperConfig \<Rightarrow> bool" where
  "session_ok b config = (launch b = None \<and> newPage b = None \<and> goto b (url config) = None)"

text \<open>
  On page \<open>n\<close> the next-page control is available: a selector is configured, it appears
  within the timeout and an element is located.
\<close>

definition nextAvailable :: "browser \<Rightarrow> ScraperConfig \<Rightarrow> int \<Rightarrow> bool" where
  "nextAvailable b config n =
     (case paginationNextSelector config of
        None \<Rightarrow> False
      | Some nextSel \<Rightarrow>
          nextSel \<noteq> [] \<and>
          waitForSelector (site b n) nextSel = Resolves () \<and>
          query (site b n) nextSel = Resolves True)"

text \<open>The advance from page \<open>n\<close> succeeds: the control is available and the click with the
  navigation it triggers resolves.\<close>

definition advances :: "browser \<Rightarrow> ScraperConfig \<Rightarrow> int \<Rightarrow> bool" where
  "advances b config n =
     (case paginationNextSelector config of
        None \<Rightarrow> False
      | Some nextSel \<Rightarrow>
          nextSel \<noteq> [] \<and>
          waitForSelector (site b n) nextSel = Resolves () \<and>
          query (site b n) nextSel = Resolves True \<and>
          clickAndWaitForNavigation (site b n) nextSel = Resolves ())"

text \<open>The page on which a loop started on page \<open>n\<close> ends, and what the loop logs there
  after the visit. Both serve the closed form of \<^const>\<open>scrapeLoop\<close> below.\<close>

function stopPage :: "browser \<Rightarrow> ScraperConfig \<Rightarrow> int \<Rightarrow> int \<Rightarrow> int" where
  "stopPage b config maxD n =
     (if paginationEnabled config \<and> n < maxD \<and> advances b config n
      then stopPage b config maxD (n + 1) else n)"
  by pat_completeness auto
termination
  by (relation "measure (\<lambda>(b, config, maxD, n). nat (maxD - n))") auto

definition stopEvents :: "browser \<Rightarrow> ScraperConfig \<Rightarrow> int \<Rightarrow> int \<Rightarrow> event list" where
  "stopEvents b config maxD n =
     (case paginationNextSelector config of
        None \<Rightarrow> []
      | Some nextSel \<Rightarrow>
          if paginationEnabled config \<and> nextSel \<noteq> [] \<and> n < maxD then
            (if waitForSelector (site b n) nextSel = Resolves () \<and>
                query (site b n) nextSel = Resolves True
             then [TryNext n, ClickNext n] else [TryNext n])
          else [])"

text \<open>
  The value of one field in the words of the specification: absent for an empty or
  whitespace-only selector, absent when the element does not appear or its text cannot be
  read, otherwise the trimmed text, an empty one being absent.
\<close>

definition extractField :: "dom \<Rightarrow> Selector \<Rightarrow> jsstring option" where
  "extractField page f =
     (if list_all is_whitespace (cssSelector f) then None
      else if waitForSelector page (cssSelector f) = Rejects then None
      else (case evalTextContent page (cssSelector f) of
              Rejects \<Rightarrow> None
            | Resolves None \<Rightarrow> None
            | Resolves (Some t) \<Rightarrow> if trim t = [] then None else Some (trim t)))"

text \<open>Two pages answer the field selectors of a list alike; two pages answer everything a job
  asks alike.\<close>

definition same_field_answers :: "dom \<Rightarrow> dom \<Rightarrow> Selector list \<Rightarrow> bool" where
  "same_field_answers p p' fs =
     list_all (\<lambda>f. waitForSelector p (cssSelector f) = waitForSelector p' (cssSelector f) \<and>
                   evalTextContent p (cssSelector f) = evalTextContent p' (cssSelector f)) fs"

definition same_answers :: "ScraperConfig \<Rightarrow> dom \<Rightarrow> dom \<Rightarrow> bool" where
  "same_answers config p p' =
     (same_field_answers p p' (selectors config) \<and>
      (case paginationNextSelector config of
         None \<Rightarrow> True
       | Some nextSel \<Rightarrow>
           waitForSelector p nextSel = waitForSelector p' nextSel \<and>
           query p nextSel = query p' nextSel \<and>
           clickAndWaitForNavigation p nextSel = clickAndWaitForNavigation p' nextSel))"

section \<open>Example pages, browsers and jobs\<close>

text \<open>
  A page with the given text per selector; \<^verbatim>\<open>a.next\<close> is its next-page control when
  \<open>has_next\<close>, and clicking it navigates when \<open>click_ok\<close>.
\<close>

definition example_dom :: "(jsstring \<rightharpoonup> jsstring) \<Rightarrow> bool \<Rightarrow> bool \<Rightarrow> dom" where
  "example_dom content has_next click_ok =
     \<lparr>waitForSelector =
        (\<lambda>s. if s = lit ''a.next'' then (if has_next then Resolves () else Rejects)
             else (case content s of None \<Rightarrow> Rejects | Some t \<Rightarrow> Resolves ())),
      evalTextContent = (\<lambda>s. case content s of None \<Rightarrow> Rejects | Some t \<Rightarrow> Resolves (Some t)),
      query = (\<lambda>s. Resolves (if s = lit ''a.next'' then has_next else content s \<noteq> None)),
      clickAndWaitForNavigation =
        (\<lambda>s. if s = lit ''a.next'' \<and> has_next \<and> click_ok then Resolves () else Rejects)\<rparr>"

definition hello_page :: dom where
  "hello_page = example_dom [lit ''h1'' \<mapsto> lit ''  Hello  ''] True True"

definition stuck_page :: dom where
  "stuck_page = example_dom [lit ''h1'' \<mapsto> lit ''Hello''] True False"

definition last_page :: dom where
  "last_page = example_dom [lit ''h1'' \<mapsto> lit ''Bye''] False False"

definition nbsp_page :: dom where
  "nbsp_page = example_dom [lit ''h1'' \<mapsto> [0x00A0, 0x3000]] False False"

definition example_browser :: "(int \<Rightarrow> dom) \<Rightarrow> browser" where
  "example_browser pages =
     \<lparr>launch = None, newPage = None, goto = (\<lambda>u. None), site = pages\<rparr>"

definition endless_browser :: browser where
  "endless_browser = example_browser (\<lambda>n. hello_page)"

definition stuck_browser :: browser where
  "stuck_browser = example_browser (\<lambda>n. stuck_page)"

definition two_page_browser :: browser where
  "two_page_browser = example_browser (\<lambda>n. if n < 2 then hello_page else last_page)"

definition three_page_browser :: browser where
  "three_page_browser = example_browser (\<lambda>n. if n \<le> 3 then hello_page else last_page)"

definition no_launch_browser :: browser where
  "no_launch_browser = endless_browser\<lparr>launch := Some (lit ''no chrome'')\<rparr>"

definition no_page_browser :: browser where
  "no_page_browser = endless_browser\<lparr>newPage := Some (lit ''target closed'')\<rparr>"

definition unreachable_browser :: browser where
  "unreachable_browser = endless_browser\<lparr>goto := (\<lambda>u. Some (lit ''net::ERR_NAME_NOT_RESOLVED''))\<rparr>"

definition title_job :: "bool \<Rightarrow> int option \<Rightarrow> ScraperConfig" where
  "title_job enabled depth =
     \<lparr>url = lit ''http://example.org'',
      selectors = [\<lparr>fieldName = lit ''title'', cssSelector = lit ''h1''\<rparr>],
      paginationEnabled = enabled,
      paginationNextSelector = Some (lit ''a.next''),
      maxDepth = depth\<rparr>"

section \<open>Preliminaries\<close>

text \<open>Literals: \<^const>\<open>lit\<close> is injective and distributes over concatenation.\<close>

lemma unat_of_char: "unat (of_char c :: code_unit) = of_char c"
proof -
  have "(of_char c :: nat) mod 256 = of_char c" by (rule of_char_mod_256)
  then have lt: "(of_char c :: nat) < 256"
    by (metis mod_less_divisor zero_less_numeral)
  have "unat (of_nat (of_char c) :: code_unit) = of_char c mod 65536"
    by (simp add: unat_of_nat)
  also have "\<dots> = of_char c" using lt by (intro mod_less) linarith
  finally show ?thesis by (simp add: of_nat_of_char)
qed

lemma of_char_code_unit_eq_iff [simp]: "(of_char c :: code_unit) = of_char d \<longleftrightarrow> c = d"
  by (metis unat_of_char of_char_eq_iff)

lemma lit_eq_iff [simp]: "lit s = lit t \<longleftrightarrow> s = t"
  by (simp add: lit_def inj_map_eq_map inj_def)

lemma lit_eq_Nil [simp]: "lit s = [] \<longleftrightarrow> s = []"
  by (simp add: lit_def)

lemma lit_append [simp]: "lit s @ lit t = lit (s @ t)"
  by (simp add: lit_def)

lemmas example_defs =
  title_job_def example_browser_def endless_browser_def stuck_browser_def two_page_browser_def three_page_browser_def
  no_launch_browser_def no_page_browser_def unreachable_browser_def
  hello_page_def stuck_page_def last_page_def nbsp_page_def example_dom_def

text \<open>
  \<^verbatim>\<open>!s.trim()\<close> holds exactly of the empty and the whitespace-only strings; \<^const>\<open>trim\<close>
  removes white space at both ends and nothing else.
\<close>

lemma trim_empty_iff: "trim s = [] \<longleftrightarrow> (\<forall>c \<in> set s. is_whitespace c)"
proof
  assume "trim s = []"
  then have "dropWhile is_whitespace (rev (dropWhile is_whitespace s)) = []"
    by (simp add: trim_def)
  then have "\<forall>c \<in> set (dropWhile is_whitespace s). is_whitespace c"
    by (simp add: dropWhile_eq_Nil_conv)
  moreover have "dropWhile is_whitespace s = [] \<or> \<not> is_whitespace (hd (dropWhile is_whitespace s))"
    using hd_dropWhile by blast
  ultimately have "dropWhile is_whitespace s = []"
    by (metis hd_in_set)
  then show "\<forall>c \<in> set s. is_whitespace c"
    by (simp add: dropWhile_eq_Nil_conv)
next
  assume "\<forall>c \<in> set s. is_whitespace c"
  then have "dropWhile is_whitespace s = []"
    by (simp add: dropWhile_eq_Nil_conv)
  then show "trim s = []"
    unfolding trim_def by (simp only: rev.simps dropWhile.simps)
qed

lemma list_all_whitespace_trim: "list_all is_whitespace s \<longleftrightarrow> trim s = []"
  by (simp add: trim_empty_iff list_all_iff)

lemma dropWhile_trim:
  "dropWhile is_whitespace t =
   trim t @ rev (takeWhile is_whitespace (rev (dropWhile is_whitespace t)))"
proof -
  let ?d = "dropWhile is_whitespace t"
  have "?d = rev (takeWhile is_whitespace (rev ?d) @ dropWhile is_whitespace (rev ?d))"
    by (simp only: takeWhile_dropWhile_id rev_rev_ident)
  then have "?d = rev (dropWhile is_whitespace (rev ?d)) @ rev (takeWhile is_whitespace (rev ?d))"
    by (simp only: rev_append)
  then show ?thesis
    by (simp only: trim_def)
qed

lemma trim_decompose:
  "\<exists>l r. t = l @ trim t @ r \<and> list_all is_whitespace l \<and> list_all is_whitespace r"
proof -
  let ?d = "dropWhile is_whitespace t"
  let ?l = "takeWhile is_whitespace t"
  let ?r = "rev (takeWhile is_whitespace (rev ?d))"
  have "t = ?l @ ?d" by simp
  also have "?d = trim t @ ?r" by (rule dropWhile_trim)
  finally have "t = ?l @ trim t @ ?r" .
  moreover have "list_all is_whitespace ?l"
    by (simp add: list_all_iff) (meson set_takeWhileD)
  moreover have "list_all is_whitespace ?r"
    by (simp add: list_all_iff) (meson set_takeWhileD)
  ultimately show ?thesis by blast
qed

lemma trim_ends:
  assumes "trim t \<noteq> []"
  shows "\<not> is_whitespace (hd (trim t)) \<and> \<not> is_whitespace (last (trim t))"
proof -
  let ?d = "dropWhile is_whitespace t"
  let ?e = "dropWhile is_whitespace (rev ?d)"
  from assms have e: "?e \<noteq> []" by (simp add: trim_def)
  have d: "?d \<noteq> []"
  proof
    assume "?d = []"
    then have "?e = []" by (simp only: rev.simps dropWhile.simps)
    with e show False by simp
  qed
  have "last (trim t) = hd ?e" using e by (simp add: trim_def last_rev)
  moreover have "\<not> is_whitespace (hd ?e)" using e hd_dropWhile by blast
  moreover have "hd ?d = hd (trim t)"
    using assms by (subst dropWhile_trim) simp
  moreover have "\<not> is_whitespace (hd ?d)" using d hd_dropWhile by blast
  ultimately show ?thesis by simp
qed

section \<open>The field extractor\<close>

text \<open>
  One iteration assigns the value of the field as the specification words it; the
  equations of \<^const>\<open>scrapeField\<close> are not unfolded after this.
\<close>

lemma scrapeField_extract:
  "scrapeField page f (item, hasData) =
     (assign item (fieldName f) (extractField page f), hasData \<or> extractField page f \<noteq> None)"
  by (simp add: extractField_def list_all_whitespace_trim split: promise.splits option.splits)

declare scrapeField.simps [simp del]

lemma scrapeFields_append:
  "scrapeFields page (xs @ ys) st = scrapeFields page ys (scrapeFields page xs st)"
  by (induction xs arbitrary: st) simp_all

lemma scrapeFields_fold: "scrapeFields page fs st = fold (scrapeField page) fs st"
  by (induction fs arbitrary: st) simp_all

lemma assign_other:
  "name \<noteq> key \<Longrightarrow>
   props (assign obj key v) name = props obj name \<and>
   (name = lit ''__proto__'' \<longrightarrow> proto_linked (assign obj key v) = proto_linked obj)"
  by (auto simp: assign_def split: option.splits)

lemma assign_same: "key \<noteq> lit ''__proto__'' \<Longrightarrow> props (assign obj key v) key = Some v"
  by (simp add: assign_def)

lemma assign_agree:
  assumes "props o1 name = props o2 name"
    and "name = lit ''__proto__'' \<longrightarrow> proto_linked o1 = proto_linked o2"
  shows "props (assign o1 key v) name = props (assign o2 key v) name \<and>
         (name = lit ''__proto__'' \<longrightarrow>
            proto_linked (assign o1 key v) = proto_linked (assign o2 key v))"
proof (cases "props o2 (lit ''__proto__'')")
  case None
  with assms show ?thesis by (auto simp: assign_def split: option.splits)
next
  case (Some y)
  with assms show ?thesis by (auto simp: assign_def split: option.splits)
qed

lemma assign_commute:
  "k1 \<noteq> k2 \<Longrightarrow> assign (assign obj k1 v1) k2 v2 = assign (assign obj k2 v2) k1 v1"
  by (auto simp: assign_def fun_upd_twist split: option.splits)

lemma dom_assign:
  "dom (props (assign obj key v)) \<subseteq> insert key (dom (props obj)) \<and>
   dom (props obj) \<subseteq> dom (props (assign obj key v)) \<and>
   (key \<noteq> lit ''__proto__'' \<longrightarrow> key \<in> dom (props (assign obj key v)))"
  by (auto simp: assign_def split: option.splits)

lemma extractField_same:
  "waitForSelector p (cssSelector f) = waitForSelector p' (cssSelector f) \<Longrightarrow>
   evalTextContent p (cssSelector f) = evalTextContent p' (cssSelector f) \<Longrightarrow>
   extractField p f = extractField p' f"
  by (simp add: extractField_def)

lemma scrapeFields_agree:
  assumes "same_field_answers p p' fs"
    and "props o1 name = props o2 name"
    and "name = lit ''__proto__'' \<longrightarrow> proto_linked o1 = proto_linked o2"
  shows "props (fst (scrapeFields p fs (o1, h1))) name =
         props (fst (scrapeFields p' fs (o2, h2))) name \<and>
         (name = lit ''__proto__'' \<longrightarrow>
            proto_linked (fst (scrapeFields p fs (o1, h1))) =
            proto_linked (fst (scrapeFields p' fs (o2, h2))))"
  using assms
proof (induction fs arbitrary: o1 o2 h1 h2)
  case Nil
  then show ?case by simp
next
  case (Cons f fs)
  from Cons.prems(1) have rest: "same_field_answers p p' fs"
    and w: "waitForSelector p (cssSelector f) = waitForSelector p' (cssSelector f)"
    and e: "evalTextContent p (cssSelector f) = evalTextContent p' (cssSelector f)"
    by (simp_all add: same_field_answers_def)
  from w e have same: "extractField p f = extractField p' f"
    by (rule extractField_same)
  from assign_agree [OF Cons.prems(2,3), of "fieldName f" "extractField p f"]
  have a: "props (assign o1 (fieldName f) (extractField p f)) name =
           props (assign o2 (fieldName f) (extractField p f)) name"
    and b: "name = lit ''__proto__'' \<longrightarrow>
            proto_linked (assign o1 (fieldName f) (extractField p f)) =
            proto_linked (assign o2 (fieldName f) (extractField p f))"
    by simp_all
  show ?case
    using Cons.IH [OF rest a b] by (simp add: scrapeField_extract same)
qed

lemma scrapeField_commute:
  assumes "fieldName f \<noteq> fieldName g"
  shows "scrapeField page f (scrapeField page g st) = scrapeField page g (scrapeField page f st)"
proof (cases st)
  case (Pair item h)
  show ?thesis
    using assign_commute [OF assms] by (auto simp: Pair scrapeField_extract)
qed

lemma scrapeFields_permuted:
  assumes "distinct (map fieldName fs)" and "mset fs' = mset fs"
  shows "scrapeFields page fs' st = scrapeFields page fs st"
proof -
  have comm: "scrapeField page x (scrapeField page y z) = scrapeField page y (scrapeField page x z)"
    if "x \<in> set fs'" "y \<in> set fs'" for x y z
  proof (cases "x = y")
    case True
    then show ?thesis by simp
  next
    case False
    have "set fs' = set fs" using assms(2) by (rule mset_eq_setD)
    with that have "x \<in> set fs" "y \<in> set fs" by simp_all
    with False assms(1) have "fieldName x \<noteq> fieldName y"
      by (auto simp: distinct_map inj_on_def)
    then show ?thesis by (rule scrapeField_commute)
  qed
  have "fold (scrapeField page) fs' st = fold (scrapeField page) fs st"
  proof (rule fold_permuted_eq [where xs = fs' and ys = fs and z = st and P = "\<lambda>_. True"
        and f = "scrapeField page"])
    show "mset fs' = mset fs" by (fact assms(2))
    show "True" ..
    show "True" if "x \<in> set fs'" "True" for x z ..
    show "scrapeField page x (scrapeField page y z) = scrapeField page y (scrapeField page x z)"
      if "x \<in> set fs'" "y \<in> set fs'" "True" for x y z
      using that(1,2) by (rule comm)
  qed
  then show ?thesis by (simp add: scrapeFields_fold)
qed

lemma scrapeFields_untouched:
  "name \<notin> fieldName ` set fs \<Longrightarrow>
   props (fst (scrapeFields page fs (item, h))) name = props item name"
proof (induction fs arbitrary: item h)
  case Nil
  then show ?case by simp
next
  case (Cons f fs)
  then have ne: "name \<noteq> fieldName f" and rest: "name \<notin> fieldName ` set fs" by auto
  show ?case
    using Cons.IH [OF rest] assign_other [OF ne] by (simp add: scrapeField_extract)
qed

lemma scrapeFields_value:
  assumes "fieldName f \<noteq> lit ''__proto__''" and "fieldName f \<notin> fieldName ` set rest"
  shows "props (fst (scrapeFields page (f # rest) (item, h))) (fieldName f) =
         Some (extractField page f)"
  using scrapeFields_untouched [OF assms(2)] assign_same [OF assms(1)]
  by (simp add: scrapeField_extract)

lemma scrapeFields_hasData:
  "snd (scrapeFields page fs (item, h)) = (h \<or> list_ex (\<lambda>f. extractField page f \<noteq> None) fs)"
  by (induction fs arbitrary: item h) (simp_all add: scrapeField_extract)

lemma scrapeFields_keys:
  "dom (props (fst (scrapeFields page fs (item, h)))) \<subseteq> dom (props item) \<union> fieldName ` set fs \<and>
   (dom (props item) \<union> fieldName ` set fs) - {(lit ''__proto__'')}
     \<subseteq> dom (props (fst (scrapeFields page fs (item, h))))"
proof (induction fs arbitrary: item h)
  case Nil
  then show ?case by auto
next
  case (Cons f fs)
  let ?item = "assign item (fieldName f) (extractField page f)"
  from Cons.IH [of ?item "h \<or> extractField page f \<noteq> None"]
    dom_assign [of item "fieldName f" "extractField page f"]
  show ?case
    by (simp add: scrapeField_extract) blast
qed

lemma scrapeFields_distinct_value:
  assumes "distinct (map fieldName fs)" and "f \<in> set fs" and "fieldName f \<noteq> lit ''__proto__''"
  shows "props (fst (scrapeFields page fs (item, h))) (fieldName f) = Some (extractField page f)"
  using assms
proof (induction fs arbitrary: item h)
  case Nil
  then show ?case by simp
next
  case (Cons g fs)
  show ?case
  proof (cases "f = g")
    case True
    from Cons.prems(1) have "fieldName g \<notin> fieldName ` set fs" by simp
    with Cons.prems(3) True show ?thesis
      using scrapeFields_value [of g fs page item h] by simp
  next
    case False
    with Cons.prems have "f \<in> set fs" "distinct (map fieldName fs)" by simp_all
    from Cons.IH [OF this(2) this(1) Cons.prems(3)] show ?thesis
      by (simp add: scrapeField_extract)
  qed
qed

lemma scrapePage_at_most_one: "length (scrapePage page fs) \<le> 1"
  by (simp add: scrapePage_def split: prod.splits)

lemma not_in_image: "k \<notin> g ` S \<Longrightarrow> x \<in> S \<Longrightarrow> g x \<noteq> k"
  by auto

text \<open>
  C6. White space is what \<^verbatim>\<open>trim\<close> strips in ECMAScript. A field whose selector is empty
  or all white space is assigned \<^verbatim>\<open>null\<close> and the loop goes on with the remaining fields.
  When the element appears and its text is read, the field is assigned the text without
  its leading and trailing white space, and \<^verbatim>\<open>null\<close> when nothing is left; the trimmed text
  is the text between two runs of white space, and it neither begins nor ends with white
  space. The record built holds that value under the name of the field when no later field
  has the same name (the last write wins) and the name is not \<^verbatim>\<open>__proto__\<close>, the one key an
  assignment does not store.
\<close>

theorem C6_field_value:
  "(is_whitespace u \<longleftrightarrow>
      u \<in> {0x0009, 0x000A, 0x000B, 0x000C, 0x000D, 0x0020, 0x00A0, 0x1680,
             0x2000, 0x2001, 0x2002, 0x2003, 0x2004, 0x2005, 0x2006, 0x2007, 0x2008,
             0x2009, 0x200A, 0x2028, 0x2029, 0x202F, 0x205F, 0x3000, 0xFEFF}) \<and>
   (list_all is_whitespace (cssSelector f) \<longrightarrow>
      scrapeFields page (f # rest) (item, hasData) =
      scrapeFields page rest (assign item (fieldName f) None, hasData)) \<and>
   (\<not> list_all is_whitespace (cssSelector f) \<and>
    waitForSelector page (cssSelector f) = Resolves () \<and>
    evalTextContent page (cssSelector f) = Resolves (Some t) \<longrightarrow>
      scrapeFields page (f # rest) (item, hasData) =
      scrapeFields page rest
        (if trim t = [] then (assign item (fieldName f) None, hasData)
         else (assign item (fieldName f) (Some (trim t)), True))) \<and>
   (\<exists>l r. t = l @ trim t @ r \<and> list_all is_whitespace l \<and> list_all is_whitespace r) \<and>
   (trim t \<noteq> [] \<longrightarrow> \<not> is_whitespace (hd (trim t)) \<and> \<not> is_whitespace (last (trim t))) \<and>
   (fieldName f \<noteq> lit ''__proto__'' \<and> fieldName f \<notin> fieldName ` set rest \<longrightarrow>
      props (fst (scrapeFields page (f # rest) (item, hasData))) (fieldName f) =
      Some (extractField page f))"
proof (intro conjI impI)
  show "is_whitespace u \<longleftrightarrow>
          u \<in> {0x0009, 0x000A, 0x000B, 0x000C, 0x000D, 0x0020, 0x00A0, 0x1680,
                 0x2000, 0x2001, 0x2002, 0x2003, 0x2004, 0x2005, 0x2006, 0x2007, 0x2008,
                 0x2009, 0x200A, 0x2028, 0x2029, 0x202F, 0x205F, 0x3000, 0xFEFF}"
    by (simp only: is_whitespace_def)
next
  assume "list_all is_whitespace (cssSelector f)"
  then show "scrapeFields page (f # rest) (item, hasData) =
             scrapeFields page rest (assign item (fieldName f) None, hasData)"
    by (simp add: scrapeField_extract extractField_def)
next
  assume "\<not> list_all is_whitespace (cssSelector f) \<and>
          waitForSelector page (cssSelector f) = Resolves () \<and>
          evalTextContent page (cssSelector f) = Resolves (Some t)"
  then show "scrapeFields page (f # rest) (item, hasData) =
             scrapeFields page rest
               (if trim t = [] then (assign item (fieldName f) None, hasData)
                else (assign item (fieldName f) (Some (trim t)), True))"
    by (simp add: scrapeField_extract extractField_def)
next
  show "\<exists>l r. t = l @ trim t @ r \<and> list_all is_whitespace l \<and> list_all is_whitespace r"
    by (rule trim_decompose)
next
  assume "trim t \<noteq> []"
  then show "\<not> is_whitespace (hd (trim t))" using trim_ends by blast
next
  assume "trim t \<noteq> []"
  then show "\<not> is_whitespace (last (trim t))" using trim_ends by blast
next
  assume "fieldName f \<noteq> lit ''__proto__'' \<and> fieldName f \<notin> fieldName ` set rest"
  then show "props (fst (scrapeFields page (f # rest) (item, hasData))) (fieldName f) =
             Some (extractField page f)"
    using scrapeFields_value [of f rest page item hasData] by blast
qed

theorem C6_field_value_witness:
  "list_all is_whitespace (cssSelector \<lparr>fieldName = lit ''a'', cssSelector = lit '' ''\<rparr>) \<and>
   scrapeFields hello_page
     [\<lparr>fieldName = lit ''a'', cssSelector = lit '' ''\<rparr>,
      \<lparr>fieldName = lit ''b'', cssSelector = lit ''h1''\<rparr>]
     (empty_item, False) =
   (\<lparr>proto_linked = True, props = [lit ''a'' \<mapsto> None, lit ''b'' \<mapsto> Some (lit ''Hello'')]\<rparr>,
    True) \<and>
   trim (lit ''  Hello  '') = lit ''Hello'' \<and>
   trim (0x00A0 # lit ''Hello'' @ [0x3000, 0xFEFF]) = lit ''Hello'' \<and>
   evalTextContent nbsp_page (lit ''h1'') = Resolves (Some [0x00A0, 0x3000]) \<and>
   scrapeFields nbsp_page [\<lparr>fieldName = lit ''b'', cssSelector = lit ''h1''\<rparr>]
     (empty_item, False) =
   (\<lparr>proto_linked = True, props = [lit ''b'' \<mapsto> None]\<rparr>, False)"
proof -
  let ?a = "\<lparr>fieldName = lit ''a'', cssSelector = lit '' ''\<rparr>"
  let ?b = "\<lparr>fieldName = lit ''b'', cssSelector = lit ''h1''\<rparr>"
  have ws: "list_all is_whitespace (cssSelector ?a)"
    by (simp add: is_whitespace_def lit_def)
  have nws: "\<not> list_all is_whitespace (cssSelector ?b)"
    by (simp add: is_whitespace_def lit_def)
  have w: "waitForSelector hello_page (cssSelector ?b) = Resolves ()"
    and e: "evalTextContent hello_page (cssSelector ?b) = Resolves (Some (lit ''  Hello  ''))"
    by (simp_all add: example_defs)
  have w': "waitForSelector nbsp_page (cssSelector ?b) = Resolves ()"
    and e': "evalTextContent nbsp_page (cssSelector ?b) = Resolves (Some [0x00A0, 0x3000])"
    by (simp_all add: example_defs)
  have t: "trim (lit ''  Hello  '') = lit ''Hello''"
    by (simp add: trim_def is_whitespace_def lit_def)
  have t2: "trim (0x00A0 # lit ''Hello'' @ [0x3000, 0xFEFF]) = lit ''Hello''"
    by (simp add: trim_def is_whitespace_def lit_def)
  have t': "trim [0x00A0, 0x3000] = []"
    by (simp add: trim_def is_whitespace_def)
  from C6_field_value [of _ ?a hello_page "[?b]" empty_item False] ws
  have 1: "scrapeFields hello_page [?a, ?b] (empty_item, False) =
           scrapeFields hello_page [?b] (assign empty_item (lit ''a'') None, False)" by simp
  from C6_field_value [of _ ?b hello_page "[]" "assign empty_item (lit ''a'') None" False
      "lit ''  Hello  ''"] nws w e
  have 2: "scrapeFields hello_page [?b] (assign empty_item (lit ''a'') None, False) =
           (assign (assign empty_item (lit ''a'') None) (lit ''b'') (Some (lit ''Hello'')), True)"
    by (simp add: t)
  have 3: "assign (assign empty_item (lit ''a'') None) (lit ''b'') (Some (lit ''Hello'')) =
           \<lparr>proto_linked = True, props = [lit ''a'' \<mapsto> None, lit ''b'' \<mapsto> Some (lit ''Hello'')]\<rparr>"
    by (simp add: assign_def empty_item_def)
  from C6_field_value [of _ ?b nbsp_page "[]" empty_item False "[0x00A0, 0x3000]"] nws w' e'
  have 4: "scrapeFields nbsp_page [?b] (empty_item, False) =
           (assign empty_item (lit ''b'') None, False)"
    by (simp add: t')
  have 5: "assign empty_item (lit ''b'') None =
           \<lparr>proto_linked = True, props = [lit ''b'' \<mapsto> None]\<rparr>"
    by (simp add: assign_def empty_item_def)
  have e'': "evalTextContent nbsp_page (lit ''h1'') = Resolves (Some [0x00A0, 0x3000])"
    using e' by simp
  from ws 1 2 3 t t2 e'' 4 5 show ?thesis by simp
qed

text \<open>
  C7. Replacing the selector of a field \<open>A\<close> by any other, failing or not, on pages that
  answer the selectors of the other fields alike, leaves the value of every field of
  another name as it was. With unique field names, the record built and the items
  returned do not depend on the order of the field list.
\<close>

theorem C7_fields_independent:
  "(fieldName A = fieldName A' \<and> name \<noteq> fieldName A \<and> same_field_answers p p' (xs @ ys) \<longrightarrow>
      props (fst (scrapeFields p (xs @ A # ys) (empty_item, False))) name =
      props (fst (scrapeFields p' (xs @ A' # ys) (empty_item, False))) name) \<and>
   (distinct (map fieldName fs) \<and> mset fs' = mset fs \<longrightarrow>
      scrapeFields page fs' (empty_item, False) = scrapeFields page fs (empty_item, False) \<and>
      scrapePage page fs' = scrapePage page fs)"
proof -
  have a: "props (fst (scrapeFields p (xs @ A # ys) (empty_item, False))) name =
           props (fst (scrapeFields p' (xs @ A' # ys) (empty_item, False))) name"
    if eq: "fieldName A = fieldName A'" and ne: "name \<noteq> fieldName A"
      and same: "same_field_answers p p' (xs @ ys)"
  proof -
    from same have sx: "same_field_answers p p' xs" and sy: "same_field_answers p p' ys"
      by (simp_all add: same_field_answers_def)
    obtain o1 h1 where s1: "scrapeFields p xs (empty_item, False) = (o1, h1)"
      by (cases "scrapeFields p xs (empty_item, False)")
    obtain o2 h2 where s2: "scrapeFields p' xs (empty_item, False) = (o2, h2)"
      by (cases "scrapeFields p' xs (empty_item, False)")
    from scrapeFields_agree [OF sx, of empty_item name empty_item False False]
    have x: "props o1 name = props o2 name"
      "name = lit ''__proto__'' \<longrightarrow> proto_linked o1 = proto_linked o2"
      by (simp_all add: s1 s2)
    let ?o1 = "assign o1 (fieldName A) (extractField p A)"
    let ?o2 = "assign o2 (fieldName A') (extractField p' A')"
    have ne': "name \<noteq> fieldName A'" using ne eq by simp
    have y: "props ?o1 name = props ?o2 name"
      "name = lit ''__proto__'' \<longrightarrow> proto_linked ?o1 = proto_linked ?o2"
      using x assign_other [OF ne, of o1 "extractField p A"]
        assign_other [OF ne', of o2 "extractField p' A'"]
      by auto
    from scrapeFields_agree [OF sy y]
    show ?thesis
      by (simp add: scrapeFields_append s1 s2 scrapeField_extract)
  qed
  have b: "scrapeFields page fs' (empty_item, False) = scrapeFields page fs (empty_item, False) \<and>
           scrapePage page fs' = scrapePage page fs"
    if "distinct (map fieldName fs)" "mset fs' = mset fs"
    unfolding scrapePage_def scrapeFields_permuted [OF that] by simp
  show ?thesis
  proof (intro conjI impI)
    assume h: "fieldName A = fieldName A' \<and> name \<noteq> fieldName A \<and> same_field_answers p p' (xs @ ys)"
    from h have h1: "fieldName A = fieldName A'" and h2: "name \<noteq> fieldName A"
      and h3: "same_field_answers p p' (xs @ ys)" by blast+
    from a [OF h1 h2 h3]
    show "props (fst (scrapeFields p (xs @ A # ys) (empty_item, False))) name =
          props (fst (scrapeFields p' (xs @ A' # ys) (empty_item, False))) name" .
  next
    assume h: "distinct (map fieldName fs) \<and> mset fs' = mset fs"
    then have h1: "distinct (map fieldName fs)" and h2: "mset fs' = mset fs" by blast+
    from b [OF h1 h2]
    show "scrapeFields page fs' (empty_item, False) = scrapeFields page fs (empty_item, False)" ..
  next
    assume h: "distinct (map fieldName fs) \<and> mset fs' = mset fs"
    then have h1: "distinct (map fieldName fs)" and h2: "mset fs' = mset fs" by blast+
    from b [OF h1 h2]
    show "scrapePage page fs' = scrapePage page fs" ..
  qed
qed

theorem C7_fields_independent_witness:
  "props (fst (scrapeFields hello_page
                 [\<lparr>fieldName = lit ''title'', cssSelector = lit ''h2''\<rparr>,
                  \<lparr>fieldName = lit ''heading'', cssSelector = lit ''h1''\<rparr>] (empty_item, False)))
     (lit ''heading'') = Some (Some (lit ''Hello'')) \<and>
   props (fst (scrapeFields hello_page
                 [\<lparr>fieldName = lit ''title'', cssSelector = lit ''h2''\<rparr>,
                  \<lparr>fieldName = lit ''heading'', cssSelector = lit ''h1''\<rparr>] (empty_item, False)))
     (lit ''title'') = Some None \<and>
   scrapePage hello_page
     [\<lparr>fieldName = lit ''heading'', cssSelector = lit ''h1''\<rparr>,
      \<lparr>fieldName = lit ''title'', cssSelector = lit ''h1''\<rparr>] =
   scrapePage hello_page
     [\<lparr>fieldName = lit ''title'', cssSelector = lit ''h1''\<rparr>,
      \<lparr>fieldName = lit ''heading'', cssSelector = lit ''h1''\<rparr>]"
proof -
  let ?A = "\<lparr>fieldName = lit ''title'', cssSelector = lit ''h1''\<rparr>"
  let ?A' = "\<lparr>fieldName = lit ''title'', cssSelector = lit ''h2''\<rparr>"
  let ?B = "\<lparr>fieldName = lit ''heading'', cssSelector = lit ''h1''\<rparr>"
  have same: "same_field_answers hello_page hello_page ([] @ [?B])"
    by (simp add: same_field_answers_def)
  have eq: "fieldName ?A = fieldName ?A'" and ne: "(lit ''heading'') \<noteq> fieldName ?A"
    by simp_all
  have d: "distinct (map fieldName [?A, ?B])" by simp
  have m: "mset [?B, ?A] = mset [?A, ?B]" by (simp add: add_mset_commute)
  note inst = C7_fields_independent [of ?A ?A' "(lit ''heading'')" hello_page hello_page "[]" "[?B]"
      "[?A, ?B]" "[?B, ?A]" hello_page]
  have ok: "props (fst (scrapeFields hello_page [?A, ?B] (empty_item, False))) (lit ''heading'') =
            Some (Some (lit ''Hello''))"
    by (simp add: scrapeField.simps example_defs empty_item_def assign_def trim_def
          is_whitespace_def lit_def)
  have fail: "props (fst (scrapeFields hello_page [?A', ?B] (empty_item, False))) (lit ''title'') =
              Some None"
    by (simp add: scrapeField.simps example_defs empty_item_def assign_def trim_def
          is_whitespace_def lit_def)
  from inst eq ne same
  have "props (fst (scrapeFields hello_page [?A, ?B] (empty_item, False))) (lit ''heading'') =
        props (fst (scrapeFields hello_page [?A', ?B] (empty_item, False))) (lit ''heading'')"
    by simp
  with ok have 1: "props (fst (scrapeFields hello_page [?A', ?B] (empty_item, False))) (lit ''heading'') =
                   Some (Some (lit ''Hello''))" by simp
  from inst d m have 2: "scrapePage hello_page [?B, ?A] = scrapePage hello_page [?A, ?B]"
    by blast
  from 1 fail 2 show ?thesis by simp
qed

text \<open>
  C3: the code emits a record whose fields are all absent. \<^verbatim>\<open>hasData\<close> is set when a
  text is extracted and never reset, while a later field of the same name overwrites
  the value. Here two fields are named \<^verbatim>\<open>title\<close>; the first finds \<^verbatim>\<open>Hello\<close>, the second
  times out, and the item returned is \<^verbatim>\<open>{title: null}\<close>.
\<close>

theorem C3_all_null_record_emitted:
  "scrapePage hello_page
     [\<lparr>fieldName = lit ''title'', cssSelector = lit ''h1''\<rparr>,
      \<lparr>fieldName = lit ''title'', cssSelector = lit ''h2''\<rparr>] =
   [\<lparr>proto_linked = True, props = [lit ''title'' \<mapsto> None]\<rparr>]"
  by (simp add: scrapePage_def scrapeField.simps example_defs empty_item_def assign_def
        trim_def is_whitespace_def lit_def)

text \<open>
  With unique field names, none of them \<^verbatim>\<open>__proto__\<close>, the rule of C3 holds: the record
  is returned iff one of its fields is not absent.
\<close>

lemma scrapePage_emitted_iff:
  assumes "distinct (map fieldName fs)" and "(lit ''__proto__'') \<notin> fieldName ` set fs"
  shows "scrapePage page fs =
           (if \<exists>name t. props (fst (scrapeFields page fs (empty_item, False))) name = Some (Some t)
            then [fst (scrapeFields page fs (empty_item, False))] else [])"
proof -
  let ?r = "fst (scrapeFields page fs (empty_item, False))"
  have "(\<exists>name t. props ?r name = Some (Some t)) \<longleftrightarrow>
        list_ex (\<lambda>f. extractField page f \<noteq> None) fs"
  proof
    assume "\<exists>name t. props ?r name = Some (Some t)"
    then obtain name t where nt: "props ?r name = Some (Some t)" by blast
    then have "name \<in> dom (props ?r)" by auto
    with scrapeFields_keys [of page fs empty_item False]
    have "name \<in> fieldName ` set fs" by (auto simp: empty_item_def)
    then obtain f where f: "f \<in> set fs" "name = fieldName f" by auto
    from assms(2) this(1) have "fieldName f \<noteq> lit ''__proto__''" by (rule not_in_image)
    from scrapeFields_distinct_value [OF assms(1) f(1) this, of page empty_item False] nt f(2)
    have "extractField page f = Some t" by simp
    with f(1) show "list_ex (\<lambda>f. extractField page f \<noteq> None) fs"
      by (auto simp: list_ex_iff)
  next
    assume "list_ex (\<lambda>f. extractField page f \<noteq> None) fs"
    then obtain f t where f: "f \<in> set fs" "extractField page f = Some t"
      by (auto simp: list_ex_iff)
    from assms(2) this(1) have "fieldName f \<noteq> lit ''__proto__''" by (rule not_in_image)
    from scrapeFields_distinct_value [OF assms(1) f(1) this, of page empty_item False] f(2)
    show "\<exists>name t. props ?r name = Some (Some t)" by auto
  qed
  moreover have "snd (scrapeFields page fs (empty_item, False)) =
                 list_ex (\<lambda>f. extractField page f \<noteq> None) fs"
    by (simp add: scrapeFields_hasData)
  ultimately have "snd (scrapeFields page fs (empty_item, False)) =
                   (\<exists>name t. props ?r name = Some (Some t))"
    by simp
  then show ?thesis
    by (cases "scrapeFields page fs (empty_item, False)") (simp add: scrapePage_def)
qed

text \<open>
  C10: the record emitted has no entry for a field named \<^verbatim>\<open>__proto__\<close>. The text
  extracted sets \<^verbatim>\<open>hasData\<close>, the assignment stores nothing, and the item returned is
  \<^verbatim>\<open>{}\<close>.
\<close>

theorem C10_proto_field_has_no_entry:
  "scrapePage hello_page [\<lparr>fieldName = lit ''__proto__'', cssSelector = lit ''h1''\<rparr>] =
   [\<lparr>proto_linked = True, props = Map.empty\<rparr>]"
  by (simp add: scrapePage_def scrapeField.simps example_defs empty_item_def assign_def
        trim_def is_whitespace_def lit_def)

text \<open>
  For every other name the claim of C10 holds: the keys of an emitted record are field
  names, every field name but \<^verbatim>\<open>__proto__\<close> is a key, and a page yields at most one
  record (see also \<open>scrapePage_at_most_one\<close>).
\<close>

lemma scrapePage_keys:
  assumes "item \<in> set (scrapePage page fs)"
  shows "dom (props item) \<subseteq> fieldName ` set fs \<and>
         fieldName ` set fs - {(lit ''__proto__'')} \<subseteq> dom (props item)"
proof -
  from assms have "item = fst (scrapeFields page fs (empty_item, False))"
    by (cases "scrapeFields page fs (empty_item, False)")
       (auto simp: scrapePage_def split: if_splits)
  with scrapeFields_keys [of page fs empty_item False] show ?thesis
    by (simp add: empty_item_def)
qed

section \<open>The loop in closed form\<close>


declare scrapeLoop.simps [simp del]
declare stopPage.simps [simp del]

lemma stopPage_rec:
  "paginationEnabled config \<and> n < maxD \<and> advances b config n \<Longrightarrow>
   stopPage b config maxD n = stopPage b config maxD (n + 1)"
  by (subst stopPage.simps) simp

lemma stopPage_base:
  "\<not> (paginationEnabled config \<and> n < maxD \<and> advances b config n) \<Longrightarrow>
   stopPage b config maxD n = n"
  by (subst stopPage.simps) auto

lemma scrapeLoop_advance:
  assumes "n < maxD" "paginationEnabled config" "advances b config n"
  shows "scrapeLoop b config maxD n acc evs =
         scrapeLoop b config maxD (n + 1) (acc @ scrapePage (site b n) (selectors config))
           (evs @ [Scraping n maxD, TryNext n, ClickNext n, NavigatedTo (n + 1)])"
  using assms
  by (subst scrapeLoop.simps)
     (auto simp: advances_def Let_def split: option.splits promise.splits bool.splits)

lemma scrapeLoop_stop:
  assumes "n \<le> maxD" "\<not> (paginationEnabled config \<and> n < maxD \<and> advances b config n)"
  shows "scrapeLoop b config maxD n acc evs =
         (acc @ scrapePage (site b n) (selectors config),
          evs @ Scraping n maxD # stopEvents b config maxD n)"
  using assms
  by (subst scrapeLoop.simps)
     (auto simp: advances_def stopEvents_def Let_def
           split: option.splits promise.splits bool.splits)

lemma stopPage_bounds: "n \<le> maxD \<Longrightarrow> n \<le> stopPage b config maxD n \<and> stopPage b config maxD n \<le> maxD"
proof (induction b config maxD n rule: stopPage.induct)
  case (1 b config maxD n)
  show ?case
  proof (cases "paginationEnabled config \<and> n < maxD \<and> advances b config n")
    case True
    with 1 show ?thesis by (simp add: stopPage_rec)
  next
    case False
    with 1 show ?thesis by (simp add: stopPage_base)
  qed
qed

lemma stopPage_advances:
  "n \<le> i \<Longrightarrow> i < stopPage b config maxD n \<Longrightarrow> paginationEnabled config \<and> i < maxD \<and> advances b config i"
proof (induction b config maxD n rule: stopPage.induct)
  case (1 b config maxD n)
  show ?case
  proof (cases "paginationEnabled config \<and> n < maxD \<and> advances b config n")
    case True
    then have eq: "stopPage b config maxD n = stopPage b config maxD (n + 1)"
      by (rule stopPage_rec)
    show ?thesis
    proof (cases "i = n")
      case True
      with \<open>paginationEnabled config \<and> n < maxD \<and> advances b config n\<close> show ?thesis by simp
    next
      case False
      with 1 True eq show ?thesis by auto
    qed
  next
    case False
    then have "stopPage b config maxD n = n" by (rule stopPage_base)
    with 1 show ?thesis by simp
  qed
qed

lemma stopPage_stops:
  "\<not> (paginationEnabled config \<and> stopPage b config maxD n < maxD \<and>
      advances b config (stopPage b config maxD n))"
proof (induction b config maxD n rule: stopPage.induct)
  case (1 b config maxD n)
  show ?case
  proof (cases "paginationEnabled config \<and> n < maxD \<and> advances b config n")
    case True
    then have "stopPage b config maxD n = stopPage b config maxD (n + 1)"
      by (rule stopPage_rec)
    with 1 True show ?thesis by simp
  next
    case False
    then have "stopPage b config maxD n = n" by (rule stopPage_base)
    with False show ?thesis by simp
  qed
qed

lemma scrapeLoop_closed_form:
  "n \<le> maxD \<Longrightarrow>
   scrapeLoop b config maxD n acc evs =
     (acc @ concat (map (\<lambda>i. scrapePage (site b i) (selectors config))
                        [n..stopPage b config maxD n]),
      evs @ concat (map (\<lambda>i. [Scraping i maxD, TryNext i, ClickNext i, NavigatedTo (i + 1)])
                        [n..stopPage b config maxD n - 1])
          @ Scraping (stopPage b config maxD n) maxD
            # stopEvents b config maxD (stopPage b config maxD n))"
proof (induction b config maxD n arbitrary: acc evs rule: stopPage.induct)
  case (1 b config maxD n)
  show ?case
  proof (cases "paginationEnabled config \<and> n < maxD \<and> advances b config n")
    case True
    then have eq: "stopPage b config maxD n = stopPage b config maxD (n + 1)"
      by (rule stopPage_rec)
    from True have le: "n + 1 \<le> maxD" by simp
    have lt: "n + 1 \<le> stopPage b config maxD (n + 1)"
      using stopPage_bounds [OF le] by simp
    have u1: "[n..stopPage b config maxD (n + 1)] = n # [n + 1..stopPage b config maxD (n + 1)]"
      using lt by (simp add: upto_rec1)
    have u2: "[n..stopPage b config maxD (n + 1) - 1] = n # [n + 1..stopPage b config maxD (n + 1) - 1]"
      using lt by (simp add: upto_rec1)
    show ?thesis
      using True "1.IH" [OF True le] 
      by (simp add: scrapeLoop_advance eq u1 u2)
  next
    case False
    then have eq: "stopPage b config maxD n = n" by (rule stopPage_base)
    show ?thesis
      using False "1.prems" by (simp add: scrapeLoop_stop eq)
  qed
qed


lemma scrapeLoop_skip: "maxD < n \<Longrightarrow> scrapeLoop b config maxD n acc evs = (acc, evs)"
  by (subst scrapeLoop.simps) simp

lemma visits_chunks:
  "filter is_visit (concat (map (\<lambda>i. [Scraping i m, TryNext i, ClickNext i, NavigatedTo (i + 1)]) xs))
   = map (\<lambda>i. Scraping i m) xs"
  by (induction xs) simp_all

lemma attempts_chunks:
  "filter is_attempt (concat (map (\<lambda>i. [Scraping i m, TryNext i, ClickNext i, NavigatedTo (i + 1)]) xs))
   = map TryNext xs"
  by (induction xs) simp_all

lemma set_chunks:
  "set (concat (map (\<lambda>i. [Scraping i m, TryNext i, ClickNext i, NavigatedTo (i + 1)]) xs))
   = (\<Union>i \<in> set xs. {Scraping i m, TryNext i, ClickNext i, NavigatedTo (i + 1)})"
  by (induction xs) auto

lemma visits_stopEvents: "filter is_visit (stopEvents b config maxD n) = []"
  by (simp add: stopEvents_def split: option.splits)

lemma set_stopEvents:
  "set (stopEvents b config maxD n) \<subseteq> {TryNext n, ClickNext n}"
  by (auto simp: stopEvents_def split: option.splits if_splits)

lemma stopEvents_attempt:
  "e \<in> set (stopEvents b config maxD n) \<Longrightarrow> paginationEnabled config \<and> n < maxD"
  by (auto simp: stopEvents_def split: option.splits if_splits)

lemma runScraper_loop:
  assumes "session_ok b config"
  shows "runScraper b config =
         \<lparr>outcome = Inr (fst (scrapeLoop b config (effectiveMaxDepth config) 1 []
                               [Launch, NewPage, Goto (url config)])),
          events = snd (scrapeLoop b config (effectiveMaxDepth config) 1 []
                               [Launch, NewPage, Goto (url config)]) @ [Close]\<rparr>"
  using assms by (simp add: runScraper_def session_ok_def split: prod.splits)

lemma runScraper_visited:
  assumes "session_ok b config" "1 \<le> effectiveMaxDepth config"
  shows "runScraper b config =
         \<lparr>outcome = Inr (concat (map (\<lambda>i. scrapePage (site b i) (selectors config))
                                     [1..stopPage b config (effectiveMaxDepth config) 1])),
          events = [Launch, NewPage, Goto (url config)]
                   @ concat (map (\<lambda>i. [Scraping i (effectiveMaxDepth config), TryNext i,
                                        ClickNext i, NavigatedTo (i + 1)])
                                 [1..stopPage b config (effectiveMaxDepth config) 1 - 1])
                   @ Scraping (stopPage b config (effectiveMaxDepth config) 1)
                              (effectiveMaxDepth config)
                     # stopEvents b config (effectiveMaxDepth config)
                         (stopPage b config (effectiveMaxDepth config) 1)
                   @ [Close]\<rparr>"
  by (simp add: runScraper_loop [OF assms(1)] scrapeLoop_closed_form [OF assms(2)])

lemma runScraper_no_visit:
  assumes "session_ok b config" "effectiveMaxDepth config < 1"
  shows "runScraper b config =
         \<lparr>outcome = Inr [], events = [Launch, NewPage, Goto (url config), Close]\<rparr>"
  by (simp add: runScraper_loop [OF assms(1)] scrapeLoop_skip [OF assms(2)])

lemma runScraper_fatal:
  assumes "\<not> session_ok b config"
  shows "(\<exists>msg. outcome (runScraper b config) = Inl (failure config msg)) \<and>
         events (runScraper b config) \<in>
           {[Launch], [Launch, NewPage, Close], [Launch, NewPage, Goto (url config), Close]}"
  using assms by (auto simp: runScraper_def session_ok_def split: option.splits)

lemma visits_fatal: "\<not> session_ok b config \<Longrightarrow> visits (runScraper b config) = 0"
  using runScraper_fatal [of b config] by (auto simp: visits_def)

lemma attempts_fatal: "\<not> session_ok b config \<Longrightarrow> attempts (runScraper b config) = 0"
  using runScraper_fatal [of b config] by (auto simp: attempts_def)

lemma visits_visited:
  assumes "session_ok b config" "1 \<le> effectiveMaxDepth config"
  shows "visits (runScraper b config) = nat (stopPage b config (effectiveMaxDepth config) 1)"
proof -
  have "1 \<le> stopPage b config (effectiveMaxDepth config) 1"
    using stopPage_bounds [OF assms(2)] by simp
  then show ?thesis
    by (simp add: visits_def runScraper_visited [OF assms] visits_chunks visits_stopEvents)
qed

lemma visits_no_visit:
  "session_ok b config \<Longrightarrow> effectiveMaxDepth config < 1 \<Longrightarrow> visits (runScraper b config) = 0"
  by (simp add: visits_def runScraper_no_visit)

lemma stopPage_early_iff:
  assumes "n \<le> maxD" "paginationEnabled config"
  shows "stopPage b config maxD n < maxD \<longleftrightarrow> (\<exists>i \<in> {n..<maxD}. \<not> advances b config i)"
proof
  assume lt: "stopPage b config maxD n < maxD"
  have "\<not> advances b config (stopPage b config maxD n)"
    using stopPage_stops [of config b maxD n] lt assms(2) by simp
  moreover have "n \<le> stopPage b config maxD n"
    using stopPage_bounds [OF assms(1)] by simp
  ultimately show "\<exists>i \<in> {n..<maxD}. \<not> advances b config i"
    using lt by auto
next
  assume "\<exists>i \<in> {n..<maxD}. \<not> advances b config i"
  then obtain i where i: "n \<le> i" "i < maxD" "\<not> advances b config i" by auto
  show "stopPage b config maxD n < maxD"
  proof (rule ccontr)
    assume "\<not> stopPage b config maxD n < maxD"
    then have "i < stopPage b config maxD n" using i(2) by simp
    from stopPage_advances [OF i(1) this] i(3) show False by simp
  qed
qed

lemma effectiveMaxDepth_enabled:
  "paginationEnabled config \<Longrightarrow> maxDepth config = Some N \<Longrightarrow> N \<noteq> 0 \<Longrightarrow> effectiveMaxDepth config = N"
  by (simp add: effectiveMaxDepth_def)

lemma effectiveMaxDepth_disabled:
  "\<not> paginationEnabled config \<Longrightarrow> effectiveMaxDepth config = 1"
  by (simp add: effectiveMaxDepth_def split: option.splits)

lemma effectiveMaxDepth_falsy:
  "maxDepth config = Some 0 \<or> maxDepth config = None \<Longrightarrow> effectiveMaxDepth config = 1"
  by (auto simp: effectiveMaxDepth_def)

lemma stopPage_at_max: "stopPage b config maxD maxD = maxD"
  by (rule stopPage_base) simp

lemma stopEvents_at_max: "stopEvents b config maxD maxD = []"
  by (simp add: stopEvents_def split: option.splits)

lemma single_visit:
  assumes "session_ok b config" "effectiveMaxDepth config = 1"
  shows "events (runScraper b config) = [Launch, NewPage, Goto (url config), Scraping 1 1, Close]"
proof -
  have "1 \<le> effectiveMaxDepth config" using assms(2) by simp
  from runScraper_visited [OF assms(1) this] show ?thesis
    by (simp add: assms(2) stopPage_at_max stopEvents_at_max)
qed

text \<open>
  Two browsers whose pages answer the selectors of the job alike on the pages the loop
  can reach drive the loop alike.
\<close>

lemma scrapeFields_same:
  "same_field_answers p p' fs \<Longrightarrow> scrapeFields p fs st = scrapeFields p' fs st"
proof (induction fs arbitrary: st)
  case Nil
  then show ?case by simp
next
  case (Cons f fs)
  from Cons.prems have rest: "same_field_answers p p' fs"
    and w: "waitForSelector p (cssSelector f) = waitForSelector p' (cssSelector f)"
    and e: "evalTextContent p (cssSelector f) = evalTextContent p' (cssSelector f)"
    by (simp_all add: same_field_answers_def)
  from w e have same: "extractField p f = extractField p' f"
    by (rule extractField_same)
  obtain item h where st: "st = (item, h)" by (cases st)
  show ?case
    using Cons.IH [OF rest] by (simp add: st scrapeField_extract same)
qed

lemma scrapePage_same:
  "same_answers config p p' \<Longrightarrow> scrapePage p (selectors config) = scrapePage p' (selectors config)"
  using scrapeFields_same [of p p' "selectors config" "(empty_item, False)"]
  by (simp add: same_answers_def scrapePage_def)

lemma advances_same:
  "same_answers config (site b1 n) (site b2 n) \<Longrightarrow> advances b1 config n = advances b2 config n"
  by (simp add: same_answers_def advances_def split: option.splits)

lemma stopEvents_same:
  "same_answers config (site b1 n) (site b2 n) \<Longrightarrow>
   stopEvents b1 config maxD n = stopEvents b2 config maxD n"
  by (auto simp: same_answers_def stopEvents_def split: option.splits)

lemma scrapeLoop_same:
  assumes "\<forall>i. n \<le> i \<and> i \<le> maxD \<longrightarrow> same_answers config (site b1 i) (site b2 i)"
  shows "scrapeLoop b1 config maxD n acc evs = scrapeLoop b2 config maxD n acc evs"
  using assms
proof (induction b1 config maxD n arbitrary: acc evs rule: stopPage.induct)
  case (1 b1 config maxD n)
  show ?case
  proof (cases "n \<le> maxD")
    case False
    then show ?thesis by (simp add: scrapeLoop_skip)
  next
    case le: True
    with "1.prems" have here: "same_answers config (site b1 n) (site b2 n)" by simp
    note page = scrapePage_same [OF here]
    note adv = advances_same [OF here]
    show ?thesis
    proof (cases "paginationEnabled config \<and> n < maxD \<and> advances b1 config n")
      case True
      then have t2: "paginationEnabled config \<and> n < maxD \<and> advances b2 config n"
        using adv by simp
      have later: "\<forall>i. n + 1 \<le> i \<and> i \<le> maxD \<longrightarrow> same_answers config (site b1 i) (site b2 i)"
        using "1.prems" by simp
      from True t2 "1.IH" [OF True later] show ?thesis
        by (simp add: scrapeLoop_advance page)
    next
      case False
      then have f2: "\<not> (paginationEnabled config \<and> n < maxD \<and> advances b2 config n)"
        using adv by simp
      show ?thesis
        by (simp add: scrapeLoop_stop [OF le False] scrapeLoop_stop [OF le f2] page
              stopEvents_same [OF here])
    qed
  qed
qed

section \<open>The pagination walker\<close>

text \<open>
  C1, as the code has it. With pagination enabled and \<^verbatim>\<open>maxDepth = N > 0\<close>, a run visits
  at most \<open>N\<close> pages; it scrapes no page beyond \<open>N\<close> and makes no attempt to advance from
  page \<open>N\<close>, whatever that page shows; and a run that reaches the loop visits fewer than
  \<open>N\<close> pages iff the advance from some page before \<open>N\<close> does not succeed: no next-page
  selector is configured, it does not appear, no element is located, or the click with its
  navigation fails.
\<close>

theorem C1_depth_bound:
  assumes "paginationEnabled config" and "maxDepth config = Some N" and "0 < N"
  shows "visits (runScraper b config) \<le> nat N \<and>
         (\<forall>i m. Scraping i m \<in> set (events (runScraper b config)) \<longrightarrow> 1 \<le> i \<and> i \<le> N) \<and>
         (\<forall>i. TryNext i \<in> set (events (runScraper b config)) \<longrightarrow> i < N) \<and>
         (session_ok b config \<longrightarrow>
            (visits (runScraper b config) < nat N \<longleftrightarrow>
               (\<exists>i \<in> {1..<N}. \<not> advances b config i)))"
proof (cases "session_ok b config")
  case False
  then show ?thesis
    using runScraper_fatal [OF False] by (auto simp: visits_fatal)
next
  case True
  have M: "effectiveMaxDepth config = N"
    using assms by (simp add: effectiveMaxDepth_enabled)
  have le: "1 \<le> effectiveMaxDepth config" using M assms(3) by simp
  define k where "k = stopPage b config N 1"
  have k: "1 \<le> k" "k \<le> N"
    using stopPage_bounds [of 1 N b config] assms(3) by (simp_all add: k_def)
  have v: "visits (runScraper b config) = nat k"
    using visits_visited [OF True le] by (simp add: M k_def)
  have ev: "events (runScraper b config) =
              [Launch, NewPage, Goto (url config)]
              @ concat (map (\<lambda>i. [Scraping i N, TryNext i, ClickNext i, NavigatedTo (i + 1)]) [1..k - 1])
              @ Scraping k N # stopEvents b config N k @ [Close]"
    using runScraper_visited [OF True le] by (simp add: M k_def)
  have c1: "visits (runScraper b config) \<le> nat N" using v k by simp
  have c2: "\<forall>i m. Scraping i m \<in> set (events (runScraper b config)) \<longrightarrow> 1 \<le> i \<and> i \<le> N"
    using k set_stopEvents [of b config N k] by (auto simp: ev set_chunks)
  have c3: "\<forall>i. TryNext i \<in> set (events (runScraper b config)) \<longrightarrow> i < N"
    using k set_stopEvents [of b config N k] stopEvents_attempt [of _ b config N k]
    by (auto simp: ev set_chunks)
  have "visits (runScraper b config) < nat N \<longleftrightarrow> k < N" using v k by simp
  also have "\<dots> \<longleftrightarrow> (\<exists>i \<in> {1..<N}. \<not> advances b config i)"
    unfolding k_def using stopPage_early_iff [of 1 N config b] assms by simp
  finally show ?thesis using c1 c2 c3 by simp
qed

theorem C1_depth_bound_witness:
  "paginationEnabled (title_job True (Some 3)) \<and>
   maxDepth (title_job True (Some 3)) = Some 3 \<and>
   session_ok two_page_browser (title_job True (Some 3)) \<and>
   visits (runScraper two_page_browser (title_job True (Some 3))) < nat 3 \<and>
   advances endless_browser (title_job True (Some 3)) 3 \<and>
   visits (runScraper endless_browser (title_job True (Some 3))) \<le> nat 3 \<and>
   TryNext 3 \<notin> set (events (runScraper endless_browser (title_job True (Some 3))))"
proof -
  let ?J = "title_job True (Some 3)"
  have h1: "paginationEnabled ?J" and h2: "maxDepth ?J = Some 3" and h3: "(0::int) < 3"
    by (simp_all add: title_job_def)
  have ok: "session_ok two_page_browser ?J"
    by (simp add: session_ok_def example_defs)
  have "\<not> advances two_page_browser ?J 2"
    by (simp add: advances_def example_defs)
  then have ex: "\<exists>i \<in> {1..<3}. \<not> advances two_page_browser ?J i"
    by (intro bexI [of _ 2]) simp_all
  have adv: "advances endless_browser ?J 3"
    by (simp add: advances_def example_defs)
  from C1_depth_bound [OF h1 h2 h3, of two_page_browser] ok ex
  have a: "visits (runScraper two_page_browser ?J) < nat 3" by blast
  from C1_depth_bound [OF h1 h2 h3, of endless_browser]
  have b: "visits (runScraper endless_browser ?J) \<le> nat 3"
    and c: "TryNext 3 \<notin> set (events (runScraper endless_browser ?J))" by auto
  from h1 h2 ok a adv b c show ?thesis by simp
qed

text \<open>
  C1 as stated fails: fewer than \<open>N\<close> pages are visited although the next-page control is
  available on every page before \<open>N\<close>. Here \<open>N = 2\<close>, the control of page 1 appears and is
  located, and the navigation after the click does not complete.
\<close>

theorem C1_selector_available_counterexample:
  "paginationEnabled (title_job True (Some 2)) \<and>
   maxDepth (title_job True (Some 2)) = Some 2 \<and>
   session_ok stuck_browser (title_job True (Some 2)) \<and>
   nextAvailable stuck_browser (title_job True (Some 2)) 1 \<and>
   visits (runScraper stuck_browser (title_job True (Some 2))) = 1"
  by code_simp

text \<open>
  C2. With pagination disabled a run makes no pagination attempt and, once the session is
  acquired and the first navigation has succeeded, visits exactly one page, whatever
  \<^verbatim>\<open>maxDepth\<close> is.
\<close>

theorem C2_pagination_disabled:
  assumes "\<not> paginationEnabled config"
  shows "attempts (runScraper b config) = 0 \<and>
         (if session_ok b config
          then events (runScraper b config) =
                 [Launch, NewPage, Goto (url config), Scraping 1 1, Close] \<and>
               visits (runScraper b config) = 1
          else visits (runScraper b config) = 0)"
proof (cases "session_ok b config")
  case False
  then show ?thesis by (simp add: visits_fatal attempts_fatal)
next
  case True
  have "events (runScraper b config) = [Launch, NewPage, Goto (url config), Scraping 1 1, Close]"
    using single_visit [OF True effectiveMaxDepth_disabled [OF assms]] .
  then show ?thesis using True by (simp add: visits_def attempts_def)
qed

theorem C2_pagination_disabled_witness:
  "\<not> paginationEnabled (title_job False (Some 5)) \<and>
   session_ok endless_browser (title_job False (Some 5)) \<and>
   nextAvailable endless_browser (title_job False (Some 5)) 1 \<and>
   attempts (runScraper endless_browser (title_job False (Some 5))) = 0 \<and>
   visits (runScraper endless_browser (title_job False (Some 5))) = 1"
proof -
  let ?J = "title_job False (Some 5)"
  have h: "\<not> paginationEnabled ?J" by (simp add: title_job_def)
  have ok: "session_ok endless_browser ?J" by (simp add: session_ok_def example_defs)
  have av: "nextAvailable endless_browser ?J 1" by (simp add: nextAvailable_def example_defs)
  from C2_pagination_disabled [OF h, of endless_browser] ok
  have "attempts (runScraper endless_browser ?J) = 0 \<and> visits (runScraper endless_browser ?J) = 1"
    by simp
  with h ok av show ?thesis by simp
qed

text \<open>
  C4. A run is rejected exactly when \<^verbatim>\<open>launch\<close>, \<^verbatim>\<open>newPage\<close> or the first \<^verbatim>\<open>goto\<close>
  is; otherwise it resolves to the items of the pages visited, in order, whatever the
  pages answer to the field selectors and to the next-page control.
\<close>

theorem C4_only_session_failures_fatal:
  "outcome (runScraper b config) =
     (case launch b of
        Some msg \<Rightarrow> Inl (failure config msg)
      | None \<Rightarrow>
         (case newPage b of
            Some msg \<Rightarrow> Inl (failure config msg)
          | None \<Rightarrow>
             (case goto b (url config) of
                Some msg \<Rightarrow> Inl (failure config msg)
              | None \<Rightarrow>
                  Inr (concat (map (\<lambda>i. scrapePage (site b i) (selectors config))
                                   [1..int (visits (runScraper b config))])))))"
proof (cases "session_ok b config")
  case False
  then show ?thesis
    by (auto simp: runScraper_def session_ok_def split: option.splits)
next
  case True
  then have s: "launch b = None" "newPage b = None" "goto b (url config) = None"
    by (simp_all add: session_ok_def)
  show ?thesis
  proof (cases "1 \<le> effectiveMaxDepth config")
    case le: True
    have "1 \<le> stopPage b config (effectiveMaxDepth config) 1"
      using stopPage_bounds [OF le] by simp
    then show ?thesis
      using visits_visited [OF True le] runScraper_visited [OF True le] by (simp add: s)
  next
    case lt: False
    then have "effectiveMaxDepth config < 1" by simp
    then show ?thesis
      using visits_no_visit [OF True] runScraper_no_visit [OF True] by (simp add: s)
  qed
qed

theorem C4_only_session_failures_fatal_witness:
  "outcome (runScraper stuck_browser (title_job True (Some 3))) =
     Inr [\<lparr>proto_linked = True, props = [lit ''title'' \<mapsto> Some (lit ''Hello'')]\<rparr>] \<and>
   outcome (runScraper unreachable_browser (title_job True (Some 3))) =
     Inl (ScrapingFailed (lit ''Scraping failed for http://example.org: net::ERR_NAME_NOT_RESOLVED''))"
proof -
  let ?J = "title_job True (Some 3)"
  have v: "visits (runScraper stuck_browser ?J) = 1" by code_simp
  have p: "scrapePage stuck_page (selectors ?J) =
           [\<lparr>proto_linked = True, props = [lit ''title'' \<mapsto> Some (lit ''Hello'')]\<rparr>]"
    by (simp add: scrapePage_def scrapeField.simps example_defs empty_item_def assign_def
          trim_def is_whitespace_def lit_def)
  have s: "launch stuck_browser = None" "newPage stuck_browser = None"
    "goto stuck_browser (url ?J) = None" "site stuck_browser 1 = stuck_page"
    by (simp_all add: stuck_browser_def example_browser_def)
  have a: "outcome (runScraper stuck_browser ?J) =
           Inr [\<lparr>proto_linked = True, props = [lit ''title'' \<mapsto> Some (lit ''Hello'')]\<rparr>]"
    using C4_only_session_failures_fatal [of stuck_browser ?J]
    by (simp add: v s p)
  have b: "outcome (runScraper unreachable_browser ?J) =
           Inl (ScrapingFailed (lit ''Scraping failed for http://example.org: net::ERR_NAME_NOT_RESOLVED''))"
    using C4_only_session_failures_fatal [of unreachable_browser ?J]
    by (simp add: example_defs failure_def)
  from a b show ?thesis by simp
qed

text \<open>
  C5, as the code has it. A \<^verbatim>\<open>maxDepth\<close> of 0, or none, is taken as 1: one page visit
  and no pagination attempt. A run that reaches the loop visits at least one page when
  pagination is disabled or \<^verbatim>\<open>maxDepth\<close> is not negative.
\<close>

theorem C5_zero_depth_is_one:
  assumes "session_ok b config"
  shows "(maxDepth config = Some 0 \<or> maxDepth config = None \<longrightarrow>
            visits (runScraper b config) = 1 \<and> attempts (runScraper b config) = 0) \<and>
         (\<not> paginationEnabled config \<or> (case maxDepth config of None \<Rightarrow> True | Some d \<Rightarrow> 0 \<le> d) \<longrightarrow>
            1 \<le> visits (runScraper b config))"
proof -
  have a: "visits (runScraper b config) = 1 \<and> attempts (runScraper b config) = 0"
    if "maxDepth config = Some 0 \<or> maxDepth config = None"
    using single_visit [OF assms effectiveMaxDepth_falsy [OF that]]
    by (simp add: visits_def attempts_def)
  have b: "1 \<le> visits (runScraper b config)"
    if "\<not> paginationEnabled config \<or> (case maxDepth config of None \<Rightarrow> True | Some d \<Rightarrow> 0 \<le> d)"
  proof -
    have le: "1 \<le> effectiveMaxDepth config"
      using that by (auto simp: effectiveMaxDepth_def split: option.splits)
    have "1 \<le> stopPage b config (effectiveMaxDepth config) 1"
      using stopPage_bounds [OF le] by simp
    then show ?thesis using visits_visited [OF assms le] by simp
  qed
  from a b show ?thesis by blast
qed

theorem C5_zero_depth_is_one_witness:
  "session_ok endless_browser (title_job True (Some 0)) \<and>
   maxDepth (title_job True (Some 0)) = Some 0 \<and>
   visits (runScraper endless_browser (title_job True (Some 0))) = 1 \<and>
   attempts (runScraper endless_browser (title_job True (Some 0))) = 0"
proof -
  let ?J = "title_job True (Some 0)"
  have ok: "session_ok endless_browser ?J" by (simp add: session_ok_def example_defs)
  have z: "maxDepth ?J = Some 0" by (simp add: title_job_def)
  from C5_zero_depth_is_one [OF ok] z ok show ?thesis by simp
qed

text \<open>
  C5 as stated fails for a negative \<^verbatim>\<open>maxDepth\<close> with pagination enabled: the number is
  truthy, the loop condition \<^verbatim>\<open>1 <= maxDepth\<close> is false at once, and no page is visited.
\<close>

theorem C5_negative_depth_counterexample:
  "session_ok endless_browser (title_job True (Some (- 1))) \<and>
   paginationEnabled (title_job True (Some (- 1))) \<and>
   maxDepth (title_job True (Some (- 1))) = Some (- 1) \<and>
   visits (runScraper endless_browser (title_job True (Some (- 1)))) = 0 \<and>
   outcome (runScraper endless_browser (title_job True (Some (- 1)))) = Inr []"
  by (simp add: session_ok_def example_defs runScraper_def effectiveMaxDepth_def
        scrapeLoop.simps visits_def)

text \<open>
  C8. When \<^verbatim>\<open>launch\<close> has resolved, the browser is closed exactly once and as the last
  thing the run does, on the rejected paths as on the others; when it has not, there is
  nothing to close.
\<close>

theorem C8_browser_closed:
  "(launch b = None \<longrightarrow>
      (\<exists>evs. events (runScraper b config) = evs @ [Close] \<and> Close \<notin> set evs)) \<and>
   (launch b \<noteq> None \<longrightarrow> Close \<notin> set (events (runScraper b config)))"
proof (cases "session_ok b config")
  case False
  then show ?thesis
    by (auto simp: runScraper_def session_ok_def split: option.splits)
next
  case True
  then have s: "launch b = None" by (simp add: session_ok_def)
  show ?thesis
  proof (cases "1 \<le> effectiveMaxDepth config")
    case le: True
    let ?M = "effectiveMaxDepth config"
    let ?k = "stopPage b config ?M 1"
    let ?evs = "[Launch, NewPage, Goto (url config)]
                @ concat (map (\<lambda>i. [Scraping i ?M, TryNext i, ClickNext i, NavigatedTo (i + 1)]) [1..?k - 1])
                @ Scraping ?k ?M # stopEvents b config ?M ?k"
    have "events (runScraper b config) = ?evs @ [Close]"
      using runScraper_visited [OF True le] by simp
    moreover have "Close \<notin> set ?evs"
      using set_stopEvents [of b config ?M ?k] by (auto simp: set_chunks)
    ultimately show ?thesis using s by blast
  next
    case lt: False
    then have "effectiveMaxDepth config < 1" by simp
    from runScraper_no_visit [OF True this]
    have "events (runScraper b config) = [Launch, NewPage, Goto (url config)] @ [Close]"
      by simp
    moreover have "Close \<notin> set [Launch, NewPage, Goto (url config)]" by simp
    ultimately show ?thesis using s by blast
  qed
qed

theorem C8_browser_closed_witness:
  "events (runScraper no_page_browser (title_job True (Some 3))) = [Launch, NewPage, Close] \<and>
   events (runScraper unreachable_browser (title_job True (Some 3))) =
     [Launch, NewPage, Goto (lit ''http://example.org''), Close] \<and>
   last (events (runScraper stuck_browser (title_job True (Some 3)))) = Close \<and>
   events (runScraper no_launch_browser (title_job True (Some 3))) = [Launch]"
proof -
  let ?J = "title_job True (Some 3)"
  have l: "launch stuck_browser = None" by (simp add: example_defs)
  from C8_browser_closed [of stuck_browser ?J] l
  obtain evs where "events (runScraper stuck_browser ?J) = evs @ [Close]" by blast
  then have "last (events (runScraper stuck_browser ?J)) = Close" by simp
  moreover have "events (runScraper no_page_browser ?J) = [Launch, NewPage, Close]"
    by (simp add: runScraper_def example_defs)
  moreover have "events (runScraper unreachable_browser ?J) =
     [Launch, NewPage, Goto (lit ''http://example.org''), Close]"
    by (simp add: runScraper_def example_defs)
  moreover have "events (runScraper no_launch_browser ?J) = [Launch]"
    by (simp add: runScraper_def example_defs)
  ultimately show ?thesis by simp
qed

text \<open>
  C9. A run is a function of the job and of what the session answers. Two runs of the same
  job, on sessions that are acquired alike and show, at each page index up to the
  effective depth, pages that answer the selectors of the job alike, return the same
  items and do the same things in the same order, whatever else differs between the
  sessions.
\<close>

theorem C9_deterministic:
  assumes "launch b1 = launch b2" and "newPage b1 = newPage b2"
    and "goto b1 (url config) = goto b2 (url config)"
    and "\<forall>i. 1 \<le> i \<and> i \<le> effectiveMaxDepth config \<longrightarrow>
           same_answers config (site b1 i) (site b2 i)"
  shows "runScraper b1 config = runScraper b2 config"
  by (simp only: runScraper_def assms(1-3) scrapeLoop_same [OF assms(4)])

theorem C9_deterministic_witness:
  "waitForSelector (site endless_browser 4) (lit ''a.next'') \<noteq>
     waitForSelector (site three_page_browser 4) (lit ''a.next'') \<and>
   runScraper endless_browser (title_job True (Some 3)) =
     runScraper three_page_browser (title_job True (Some 3)) \<and>
   visits (runScraper three_page_browser (title_job True (Some 3))) = 3"
proof -
  let ?J = "title_job True (Some 3)"
  have d: "waitForSelector (site endless_browser 4) (lit ''a.next'') \<noteq>
           waitForSelector (site three_page_browser 4) (lit ''a.next'')"
    by (simp add: three_page_browser_def example_defs)
  have h1: "launch endless_browser = launch three_page_browser"
    and h2: "newPage endless_browser = newPage three_page_browser"
    and h3: "goto endless_browser (url ?J) = goto three_page_browser (url ?J)"
    by (simp_all add: three_page_browser_def endless_browser_def example_browser_def)
  have M: "effectiveMaxDepth ?J = 3" by (simp add: effectiveMaxDepth_def title_job_def)
  have h4: "\<forall>i. 1 \<le> i \<and> i \<le> effectiveMaxDepth ?J \<longrightarrow>
              same_answers ?J (site endless_browser i) (site three_page_browser i)"
  proof (intro allI impI)
    fix i :: int
    assume "1 \<le> i \<and> i \<le> effectiveMaxDepth ?J"
    then have "i \<le> 3" by (simp add: M)
    then show "same_answers ?J (site endless_browser i) (site three_page_browser i)"
      by (simp add: three_page_browser_def endless_browser_def example_browser_def
            same_answers_def same_field_answers_def title_job_def)
  qed
  have eq: "runScraper endless_browser ?J = runScraper three_page_browser ?J"
    by (rule C9_deterministic [OF h1 h2 h3 h4])
  have "visits (runScraper endless_browser ?J) = 3" by code_simp
  with eq d show ?thesis by simp
qed

end
